theory Spec2Isabelle
  imports Complex_Main
begin

section \<open>The trigram model of ngram\_model.py\<close>

text \<open>
  A shallow embedding of the class \<open>TrigramModel\<close>. Python strings are modelled as
  \<open>string\<close>, a character being a code point below 256. Python dictionaries keep their
  insertion order, and \<open>_get_next_word_probabilities\<close> returns its list in that order, so a
  dictionary is an association list in insertion order. A Python float is modelled by the
  rational number it denotes, and every float operation rounds as binary64 does.
\<close>

subsection \<open>Sentinel tokens\<close>

definition START_TOKEN :: string where
  "START_TOKEN = ''<start>''"

definition END_TOKEN :: string where
  "END_TOKEN = ''<end>''"

definition UNK_TOKEN :: string where
  "UNK_TOKEN = ''<unk>''"

subsection \<open>Dictionaries with default values\<close>

type_synonym ('k, 'v) dict = "('k \<times> 'v) list"

text \<open>
  \<open>d[k] = f(d[k])\<close> on a \<open>defaultdict\<close> whose default is \<open>d0\<close>: an existing key keeps
  its position, a new key is appended.
\<close>

fun dict_upd :: "'k \<Rightarrow> 'v \<Rightarrow> ('v \<Rightarrow> 'v) \<Rightarrow> ('k, 'v) dict \<Rightarrow> ('k, 'v) dict" where
  "dict_upd k d0 f [] = [(k, f d0)]"
| "dict_upd k d0 f ((k', v) # kvs) =
     (if k' = k then (k', f v) # kvs else (k', v) # dict_upd k d0 f kvs)"

text \<open>Reading \<open>d[k]\<close> on a \<open>defaultdict(int)\<close>.\<close>

definition dict_get :: "('k, nat) dict \<Rightarrow> 'k \<Rightarrow> nat" where
  "dict_get d k = (case map_of d k of None \<Rightarrow> 0 | Some c \<Rightarrow> c)"

subsection \<open>The model state\<close>

record model =
  counts :: "(string, (string, (string, nat) dict) dict) dict"
  vocab :: "(string, nat) dict"
  unk_threshold :: int
  trained :: bool

text \<open>\<open>__init__\<close>\<close>

definition init :: "int \<Rightarrow> model" where
  "init t = \<lparr>counts = [], vocab = [], unk_threshold = t, trained = False\<rparr>"

subsection \<open>Text normalisation\<close>

text \<open>\<open>str.isspace\<close> on the code points below 256.\<close>

definition isspace :: "char \<Rightarrow> bool" where
  "isspace c = (let n = (of_char c :: nat) in
     (9 \<le> n \<and> n \<le> 13) \<or> (28 \<le> n \<and> n \<le> 32) \<or> n = 133 \<or> n = 160)"

text \<open>\<open>str.lower\<close> on one code point below 256.\<close>

definition lower_char :: "char \<Rightarrow> char" where
  "lower_char c = (let n = (of_char c :: nat) in
     if (65 \<le> n \<and> n \<le> 90) \<or> (192 \<le> n \<and> n \<le> 222 \<and> n \<noteq> 215)
     then char_of (n + 32) else c)"

definition lower :: "string \<Rightarrow> string" where
  "lower text = map lower_char text"

text \<open>\<open>re.sub(r'\s+', ' ', text)\<close>: every maximal run of whitespace becomes one space.\<close>

function sub_ws :: "string \<Rightarrow> string" where
  "sub_ws [] = []"
| "sub_ws (c # cs) =
     (if isspace c then CHR '' '' # sub_ws (dropWhile isspace cs) else c # sub_ws cs)"
  by pat_completeness auto
termination
  by (relation "measure length") (auto simp: le_imp_less_Suc length_dropWhile_le)

text \<open>\<open>str.strip()\<close>\<close>

definition strip :: "string \<Rightarrow> string" where
  "strip text = rev (dropWhile isspace (rev (dropWhile isspace text)))"

definition clean_text :: "string \<Rightarrow> string" where
  "clean_text text = strip (sub_ws (lower text))"

text \<open>\<open>str.split()\<close>: the maximal runs of non-whitespace characters.\<close>

function split_ws :: "string \<Rightarrow> string list" where
  "split_ws s =
     (case dropWhile isspace s of
        [] \<Rightarrow> []
      | c # cs \<Rightarrow> (c # takeWhile (\<lambda>x. \<not> isspace x) cs)
                 # split_ws (dropWhile (\<lambda>x. \<not> isspace x) cs))"
  by pat_completeness auto
termination
proof (relation "measure length", goal_cases)
  case 1
  show ?case by simp
next
  case (2 s c cs)
  have "length (dropWhile (\<lambda>x. \<not> isspace x) cs) \<le> length cs"
    by (rule length_dropWhile_le)
  moreover have "length (c # cs) \<le> length s"
    using length_dropWhile_le [of isspace s] 2 by simp
  ultimately show ?case by simp
qed

declare split_ws.simps [simp del]

definition tokenize :: "string \<Rightarrow> string list" where
  "tokenize text = split_ws text"

subsection \<open>Padding\<close>

definition add_padding :: "string list \<Rightarrow> string list" where
  "add_padding tokens =
     (if tokens = [] then [] else [START_TOKEN, START_TOKEN] @ tokens @ [END_TOKEN])"

subsection \<open>Unknown words\<close>

text \<open>The first pass: the frequency of every token that is not a sentinel.\<close>

definition first_pass :: "string list \<Rightarrow> (string, nat) dict" where
  "first_pass tokens =
     foldl (\<lambda>word_counts token.
              if token \<notin> set [START_TOKEN, END_TOKEN, UNK_TOKEN]
              then dict_upd token 0 Suc word_counts else word_counts)
           [] tokens"

text \<open>
  The second pass, which also counts into the vocabulary. Reading \<open>word_counts[token]\<close>
  for a token the first pass skipped stores a zero in the local dictionary, which no later
  read can tell from the default.
\<close>

fun second_pass ::
  "(string, nat) dict \<Rightarrow> int \<Rightarrow> string list \<Rightarrow> (string, nat) dict
     \<Rightarrow> string list \<times> (string, nat) dict" where
  "second_pass word_counts t [] v = ([], v)"
| "second_pass word_counts t (token # tokens) v =
     (if token \<in> set [START_TOKEN, END_TOKEN] then
        (let (processed, v') = second_pass word_counts t tokens v
         in (token # processed, v'))
      else if int (dict_get word_counts token) \<le> t then
        (let (processed, v') = second_pass word_counts t tokens (dict_upd UNK_TOKEN 0 Suc v)
         in (UNK_TOKEN # processed, v'))
      else
        (let (processed, v') = second_pass word_counts t tokens (dict_upd token 0 Suc v)
         in (token # processed, v')))"

definition handle_unknown_words ::
  "int \<Rightarrow> (string, nat) dict \<Rightarrow> string list \<Rightarrow> string list \<times> (string, nat) dict" where
  "handle_unknown_words t v tokens = second_pass (first_pass tokens) t tokens v"

subsection \<open>Training\<close>

text \<open>\<open>self.counts[w1][w2][w3] += 1\<close>\<close>

definition incr_trigram ::
  "string \<Rightarrow> string \<Rightarrow> string \<Rightarrow> (string, (string, (string, nat) dict) dict) dict
     \<Rightarrow> (string, (string, (string, nat) dict) dict) dict" where
  "incr_trigram w1 w2 w3 c = dict_upd w1 [] (dict_upd w2 [] (dict_upd w3 0 Suc)) c"

definition count_trigrams ::
  "string list \<Rightarrow> (string, (string, (string, nat) dict) dict) dict
     \<Rightarrow> (string, (string, (string, nat) dict) dict) dict" where
  "count_trigrams padded_tokens c =
     foldl (\<lambda>c i. incr_trigram (padded_tokens ! i) (padded_tokens ! (i + 1))
                     (padded_tokens ! (i + 2)) c)
           c [0 ..< length padded_tokens - 2]"

text \<open>The padded token sequence that \<open>fit\<close> counts over.\<close>

definition padded_tokens_of :: "int \<Rightarrow> (string, nat) dict \<Rightarrow> string \<Rightarrow> string list" where
  "padded_tokens_of t v text =
     add_padding (fst (handle_unknown_words t v (tokenize (clean_text text))))"

definition fit :: "model \<Rightarrow> string \<Rightarrow> model" where
  "fit m text =
     (if text = [] \<or> strip text = [] then m\<lparr>trained := True\<rparr>
      else
        let cleaned_text = clean_text text;
            tokens = tokenize cleaned_text;
            (tokens', v') = handle_unknown_words (unk_threshold m) (vocab m) tokens;
            padded_tokens = add_padding tokens'
        in m\<lparr>counts := count_trigrams padded_tokens (counts m), vocab := v',
              trained := True\<rparr>)"

subsection \<open>Floating point\<close>

text \<open>
  A float is the rational it denotes. An operation of IEEE 754 binary64 returns the
  representable number nearest to the exact result, a tie going to the even significand;
  \<open>round_double\<close> is that rounding for a significand of 53 bits. The exponent is not
  bounded here, so the model agrees with binary64 wherever the exact result has a magnitude
  from \<open>2\<^sup>-\<^sup>1\<^sup>0\<^sup>2\<^sup>2\<close> up to \<open>2\<^sup>1\<^sup>0\<^sup>2\<^sup>4\<close>; for a quotient \<open>count / total_count\<close> that is
  every context whose total is below \<open>2\<^sup>1\<^sup>0\<^sup>2\<^sup>2\<close>.
\<close>

definition pow2 :: "int \<Rightarrow> rat" where
  "pow2 e = (if 0 \<le> e then 2 ^ nat e else 1 / 2 ^ nat (- e))"

text \<open>\<open>int.bit_length\<close>\<close>

function bit_length :: "int \<Rightarrow> nat" where
  "bit_length n = (if n \<le> 0 then 0 else Suc (bit_length (n div 2)))"
  by pat_completeness auto
termination
  by (relation "measure nat") auto

declare bit_length.simps [simp del]

text \<open>The exponent \<open>k\<close> of a positive rational: \<open>2\<^sup>k \<le> x < 2\<^sup>k\<^sup>+\<^sup>1\<close>.\<close>

definition floor_log2 :: "rat \<Rightarrow> int" where
  "floor_log2 x =
     (let (p, q) = quotient_of x;
          k = int (bit_length p) - int (bit_length q)
      in if pow2 k \<le> x then k else k - 1)"

definition round_half_even :: "rat \<Rightarrow> int" where
  "round_half_even y =
     (let m = \<lfloor>y\<rfloor>; r = y - of_int m
      in if r < 1 / 2 then m
         else if 1 / 2 < r then m + 1
         else if even m then m else m + 1)"

definition round_double :: "rat \<Rightarrow> rat" where
  "round_double x =
     (if x = 0 then 0
      else
        let a = \<bar>x\<bar>;
            e = floor_log2 a - 52;
            m = round_half_even (a / pow2 e)
        in sgn x * of_int m * pow2 e)"

text \<open>
  \<open>a / b\<close> on two integers, which Python rounds correctly; the only call is guarded by
  \<open>total_count == 0\<close>, so the divisor is never zero.
\<close>

definition truediv :: "nat \<Rightarrow> nat \<Rightarrow> rat" where
  "truediv a b = round_double (of_nat a / of_nat b)"

text \<open>\<open>x + y\<close> and \<open>x * y\<close> on floats.\<close>

definition fadd :: "rat \<Rightarrow> rat \<Rightarrow> rat" where
  "fadd x y = round_double (x + y)"

definition fmul :: "rat \<Rightarrow> rat \<Rightarrow> rat" where
  "fmul x y = round_double (x * y)"

subsection \<open>The next-word distribution\<close>

definition get_next_word_probabilities ::
  "model \<Rightarrow> string \<Rightarrow> string \<Rightarrow> (string \<times> rat) list" where
  "get_next_word_probabilities m w1 w2 =
     (case map_of (counts m) w1 of
        None \<Rightarrow> []
      | Some d1 \<Rightarrow>
          (case map_of d1 w2 of
             None \<Rightarrow> []
           | Some trigram_context \<Rightarrow>
               (let total_count = sum_list (map snd trigram_context)
                in if total_count = 0 then []
                   else map (\<lambda>(word, count). (word, truediv count total_count))
                          trigram_context)))"

subsection \<open>The random source and \<open>random.choices\<close>\<close>

text \<open>
  The entropy source is an infinite sequence of draws and the number of draws taken so far.
\<close>

record entropy =
  source :: "nat \<Rightarrow> rat"
  consumed :: nat

definition random_draw :: "entropy \<Rightarrow> rat \<times> entropy" where
  "random_draw e = (source e (consumed e), e\<lparr>consumed := Suc (consumed e)\<rparr>)"

datatype py_error = ValueError | IndexError

text \<open>\<open>itertools.accumulate(weights)\<close>: the running float sums, the first weight as it is.\<close>

fun accumulate_from :: "rat \<Rightarrow> rat list \<Rightarrow> rat list" where
  "accumulate_from acc [] = []"
| "accumulate_from acc (w # ws) = fadd acc w # accumulate_from (fadd acc w) ws"

definition accumulate :: "rat list \<Rightarrow> rat list" where
  "accumulate weights = (case weights of [] \<Rightarrow> [] | w # ws \<Rightarrow> w # accumulate_from w ws)"

text \<open>
  \<open>bisect(cum_weights, x, 0, hi)\<close> on a sorted list: the number of entries among the first
  \<open>hi\<close> that are at most \<open>x\<close>.
\<close>

definition bisect :: "rat list \<Rightarrow> rat \<Rightarrow> nat \<Rightarrow> nat" where
  "bisect cum_weights x hi = length (takeWhile (\<lambda>c. c \<le> x) (take hi cum_weights))"

text \<open>
  \<open>random.choices(population, weights=weights, k=1)[0]\<close> of the standard library. Its
  test that the total is finite is left out: every float of this model is.
\<close>

definition choices ::
  "string list \<Rightarrow> rat list \<Rightarrow> entropy \<Rightarrow> py_error + (string \<times> entropy)" where
  "choices population weights e =
     (let n = length population;
          cum_weights = accumulate weights
      in if length cum_weights \<noteq> n then Inl ValueError
         else if cum_weights = [] then Inl IndexError
         else
           let total = fadd (last cum_weights) 0
           in if total \<le> 0 then Inl ValueError
              else
                let (u, e') = random_draw e
                in Inr (population ! bisect cum_weights (fmul u total) (n - 1), e'))"

definition sample_next_word ::
  "model \<Rightarrow> string \<Rightarrow> string \<Rightarrow> entropy \<Rightarrow> py_error + (string \<times> entropy)" where
  "sample_next_word m w1 w2 e =
     (let probabilities = get_next_word_probabilities m w1 w2
      in if probabilities = [] then Inr (END_TOKEN, e)
         else choices (map fst probabilities) (map snd probabilities) e)"

subsection \<open>Generation\<close>

text \<open>The \<open>while\<close> loop of \<open>generate\<close>.\<close>

function generate_loop ::
  "model \<Rightarrow> int \<Rightarrow> string \<Rightarrow> string \<Rightarrow> string list \<Rightarrow> int \<Rightarrow> entropy
     \<Rightarrow> py_error + (string list \<times> entropy)" where
  "generate_loop m max_length w1 w2 generated_words len e =
     (if len < max_length then
        (case sample_next_word m w1 w2 e of
           Inl err \<Rightarrow> Inl err
         | Inr (next_word, e') \<Rightarrow>
             if next_word = END_TOKEN then Inr (generated_words, e')
             else
               generate_loop m max_length w2 next_word
                 (if next_word \<notin> set [START_TOKEN, END_TOKEN, UNK_TOKEN]
                  then generated_words @ [next_word]
                  else if next_word = UNK_TOKEN then generated_words @ [next_word]
                  else generated_words)
                 (len + 1) e')
      else Inr (generated_words, e))"
  by pat_completeness auto
termination
  by (relation "measure (\<lambda>(m, max_length, w1, w2, ws, len, e). nat (max_length - len))") auto

declare generate_loop.simps [simp del]

text \<open>\<open>" ".join(words)\<close>\<close>

fun join_sp :: "string list \<Rightarrow> string" where
  "join_sp [] = []"
| "join_sp [w] = w"
| "join_sp (w # ws) = w @ CHR '' '' # join_sp ws"

text \<open>The words that \<open>generate\<close> emits, before they are joined.\<close>

definition generate_words ::
  "model \<Rightarrow> int \<Rightarrow> (string \<times> string) option \<Rightarrow> entropy
     \<Rightarrow> py_error + (string list \<times> entropy)" where
  "generate_words m max_length seed_text e =
     (if \<not> trained m then Inr ([], e)
      else if counts m = [] then Inr ([], e)
      else
        let (w1, w2) = (case seed_text of None \<Rightarrow> (START_TOKEN, START_TOKEN) | Some s \<Rightarrow> s)
        in generate_loop m max_length w1 w2 [] 0 e)"

definition generate ::
  "model \<Rightarrow> int \<Rightarrow> (string \<times> string) option \<Rightarrow> entropy \<Rightarrow> py_error + (string \<times> entropy)" where
  "generate m max_length seed_text e =
     (case generate_words m max_length seed_text e of
        Inl err \<Rightarrow> Inl err
      | Inr (ws, e') \<Rightarrow> Inr (join_sp ws, e'))"

text \<open>The test \<open>w1 in self.counts and w2 in self.counts[w1]\<close>.\<close>

definition in_table :: "model \<Rightarrow> string \<Rightarrow> string \<Rightarrow> bool" where
  "in_table m w1 w2 =
     (case map_of (counts m) w1 of None \<Rightarrow> False | Some d1 \<Rightarrow> map_of d1 w2 \<noteq> None)"

subsection \<open>Observations on the count table and on token sequences\<close>

text \<open>
  \<open>sum(self.counts[w1][w2].values())\<close>, the total mass of a context; a context that is
  not in the table has mass zero.
\<close>

definition total_count ::
  "(string, (string, (string, nat) dict) dict) dict \<Rightarrow> string \<Rightarrow> string \<Rightarrow> nat" where
  "total_count c w1 w2 =
     (case map_of c w1 of
        None \<Rightarrow> 0
      | Some d1 \<Rightarrow>
          (case map_of d1 w2 of
             None \<Rightarrow> 0
           | Some trigram_context \<Rightarrow> sum_list (map snd trigram_context)))"

text \<open>
  The number of positions of a token sequence at which \<open>w1, w2\<close> occur next to each other
  and are followed by a third token.
\<close>

definition occurrences :: "string list \<Rightarrow> string \<Rightarrow> string \<Rightarrow> nat" where
  "occurrences p w1 w2 =
     length (filter (\<lambda>i. p ! i = w1 \<and> p ! (i + 1) = w2) [0 ..< length p - 2])"

text \<open>A string has a word when one of its characters is not whitespace.\<close>

definition has_word :: "string \<Rightarrow> bool" where
  "has_word s = (\<exists>c \<in> set s. \<not> isspace c)"

text \<open>What the second pass of \<open>_handle_unknown_words\<close> writes for one token.\<close>

definition substitute :: "(string, nat) dict \<Rightarrow> int \<Rightarrow> string \<Rightarrow> string" where
  "substitute word_counts t token =
     (if token = START_TOKEN \<or> token = END_TOKEN then token
      else if int (dict_get word_counts token) \<le> t then UNK_TOKEN
      else token)"

text \<open>
  A string is normal when each of its whitespace characters is a space that is followed by
  nothing or by a character that is not whitespace.
\<close>

fun normal :: "string \<Rightarrow> bool" where
  "normal [] = True"
| "normal (c # cs) =
     ((isspace c \<longrightarrow> c = CHR '' '' \<and> (case cs of [] \<Rightarrow> True | d # ds \<Rightarrow> \<not> isspace d))
      \<and> normal cs)"

text \<open>
  \<open>self.counts[w1][w2].items()\<close>: the third tokens stored for a context with their
  counts, in insertion order; empty for a context that is not in the table.
\<close>

definition context_items :: "model \<Rightarrow> string \<Rightarrow> string \<Rightarrow> (string, nat) dict" where
  "context_items m w1 w2 =
     (case map_of (counts m) w1 of
        None \<Rightarrow> []
      | Some d1 \<Rightarrow> (case map_of d1 w2 of None \<Rightarrow> [] | Some trigram_context \<Rightarrow> trigram_context))"

text \<open>The count stored for a trigram, zero when it is not stored.\<close>

definition trigram_count :: "model \<Rightarrow> string \<Rightarrow> string \<Rightarrow> string \<Rightarrow> nat" where
  "trigram_count m w1 w2 w3 = dict_get (context_items m w1 w2) w3"

subsection \<open>Observations on training runs and on generated text\<close>

text \<open>The tokens that occur as the third component of a stored trigram.\<close>

definition thirds :: "(string, (string, (string, nat) dict) dict) dict \<Rightarrow> string set" where
  "thirds c = (\<Union>(w1, d1) \<in> set c. \<Union>(w2, trigram_context) \<in> set d1. fst ` set trigram_context)"

text \<open>The model that successive calls of \<open>fit\<close> build from a fresh one.\<close>

definition fit_all :: "int \<Rightarrow> string list \<Rightarrow> model" where
  "fit_all t texts = foldl fit (init t) texts"

text \<open>\<open>s.split(' ')\<close>: the pieces of a string between single spaces.\<close>

fun split_sp :: "string \<Rightarrow> string list" where
  "split_sp [] = [[]]"
| "split_sp (c # cs) =
     (if c = CHR '' '' then [] # split_sp cs
      else (case split_sp cs of [] \<Rightarrow> [[c]] | w # ws \<Rightarrow> (c # w) # ws))"

text \<open>What one step of the generation loop appends for a sampled word that is not the end token.\<close>

definition emitted :: "string \<Rightarrow> string list" where
  "emitted w = (if w = START_TOKEN \<or> w = END_TOKEN then [] else [w])"

section \<open>Properties\<close>

subsection \<open>Unseen contexts end the generation\<close>

lemma probs_absent:
  "\<not> in_table m w1 w2 \<Longrightarrow> get_next_word_probabilities m w1 w2 = []"
  by (auto simp: in_table_def get_next_word_probabilities_def split: option.splits)

lemma sample_empty:
  "get_next_word_probabilities m w1 w2 = [] \<Longrightarrow>
   sample_next_word m w1 w2 e = Inr (END_TOKEN, e)"
  by (simp add: sample_next_word_def)

lemma loop_empty:
  "get_next_word_probabilities m w1 w2 = [] \<Longrightarrow>
   generate_loop m L w1 w2 ws len e = Inr (ws, e)"
  by (subst generate_loop.simps) (simp add: sample_empty)

lemma gen_empty:
  "get_next_word_probabilities m w1 w2 = [] \<Longrightarrow>
   generate m L (Some (w1, w2)) e = Inr ([], e)"
  by (simp add: generate_def generate_words_def loop_empty)

text \<open>
  C6. When the next-word distribution of a context is empty, the sampler returns the end
  token and hands the entropy source back as it received it, whatever that source is (so
  two runs on two sources \<open>e\<close> and \<open>e'\<close> agree); \<open>generate\<close> seeded with such a context
  returns the empty string with the source untouched. A context that is not in the table has
  the empty distribution, so all of this holds for it.
\<close>

theorem end_short_circuit:
  "(get_next_word_probabilities m w1 w2 = [] \<longrightarrow>
      sample_next_word m w1 w2 e = Inr (END_TOKEN, e)
      \<and> sample_next_word m w1 w2 e' = Inr (END_TOKEN, e')
      \<and> generate m max_length (Some (w1, w2)) e = Inr ([], e))
   \<and> (\<not> in_table m w1 w2 \<longrightarrow>
      get_next_word_probabilities m w1 w2 = []
      \<and> generate m max_length (Some (w1, w2)) e = Inr ([], e))"
  by (simp add: sample_empty gen_empty probs_absent)

theorem end_short_circuit_witness:
  "get_next_word_probabilities (fit (init 0) ''a b'') ''b'' ''a'' = []
   \<and> \<not> in_table (fit (init 0) ''a b'') ''b'' ''a''
   \<and> sample_next_word (fit (init 0) ''a b'') ''b'' ''a'' \<lparr>source = (\<lambda>i. 0), consumed = 0\<rparr>
       = Inr (END_TOKEN, \<lparr>source = (\<lambda>i. 0), consumed = 0\<rparr>)
   \<and> generate (fit (init 0) ''a b'') 50 (Some (''b'', ''a''))
         \<lparr>source = (\<lambda>i. 0), consumed = 0\<rparr>
       = Inr ([], \<lparr>source = (\<lambda>i. 0), consumed = 0\<rparr>)"
proof -
  have h1: "get_next_word_probabilities (fit (init 0) ''a b'') ''b'' ''a'' = []"
    by code_simp
  have h2: "\<not> in_table (fit (init 0) ''a b'') ''b'' ''a''"
    by code_simp
  show ?thesis
    using h1 h2
      end_short_circuit [of "fit (init 0) ''a b''" "''b''" "''a''"
        "\<lparr>source = (\<lambda>i. 0), consumed = 0\<rparr>" "\<lparr>source = (\<lambda>i. 0), consumed = 0\<rparr>" 50]
    by simp
qed

subsection \<open>Degenerate inputs\<close>

text \<open>
  C7. Training on the empty string or on a string of whitespace only sets the trained flag
  and leaves the count table and the vocabulary as they were. \<open>generate\<close> on a model that
  is not trained, or whose count table is empty, returns the empty string and leaves the
  entropy source untouched.
\<close>

theorem degenerate_inputs:
  "(text = [] \<or> strip text = [] \<longrightarrow>
      trained (fit m text) \<and> counts (fit m text) = counts m \<and> vocab (fit m text) = vocab m)
   \<and> (\<not> trained m \<or> counts m = [] \<longrightarrow> generate m max_length seed_text e = Inr ([], e))"
  by (simp add: fit_def generate_def generate_words_def)

theorem degenerate_inputs_witness:
  "strip '' '' = []
   \<and> trained (fit (init 1) '' '')
   \<and> counts (fit (init 1) '' '') = []
   \<and> vocab (fit (init 1) '' '') = []
   \<and> \<not> trained (init 1)
   \<and> generate (init 1) 50 None \<lparr>source = (\<lambda>i. 0), consumed = 0\<rparr>
       = Inr ([], \<lparr>source = (\<lambda>i. 0), consumed = 0\<rparr>)"
proof -
  have h: "strip '' '' = []"
    by code_simp
  show ?thesis
    using h degenerate_inputs [of "'' ''" "init 1" 50 None "\<lparr>source = (\<lambda>i. 0), consumed = 0\<rparr>"]
    by (simp add: init_def)
qed

subsection \<open>Whitespace, words and cleaning\<close>

lemma dropWhile_Nil_has_word: "dropWhile isspace s = [] \<longleftrightarrow> \<not> has_word s"
  by (induction s) (auto simp: has_word_def)

lemma has_word_dropWhile: "has_word (dropWhile isspace s) = has_word s"
  by (induction s) (auto simp: has_word_def)

lemma has_word_rev: "has_word (rev s) = has_word s"
  by (simp add: has_word_def)

lemma strip_Nil_iff: "strip s = [] \<longleftrightarrow> \<not> has_word s"
proof -
  have "strip s = [] \<longleftrightarrow> \<not> has_word (dropWhile isspace s)"
    by (simp add: strip_def has_word_def)
  then show ?thesis by (simp add: has_word_dropWhile)
qed

lemma has_word_strip: "has_word (strip s) = has_word s"
  by (simp add: strip_def has_word_rev has_word_dropWhile)

lemma isspace_space: "isspace CHR '' ''"
  by (simp add: isspace_def)

lemma of_char_lower_char:
  "(of_char (lower_char c) :: nat) =
     (if (65 \<le> (of_char c :: nat) \<and> (of_char c :: nat) \<le> 90)
         \<or> (192 \<le> (of_char c :: nat) \<and> (of_char c :: nat) \<le> 222 \<and> (of_char c :: nat) \<noteq> 215)
      then of_char c + 32 else of_char c)"
  by (auto simp: lower_char_def Let_def of_char_of)

lemma isspace_lower_char: "isspace (lower_char c) = isspace c"
  unfolding isspace_def Let_def of_char_lower_char by auto

lemma lower_char_idem: "lower_char (lower_char c) = lower_char c"
proof -
  have "(of_char (lower_char (lower_char c)) :: nat) = of_char (lower_char c)"
    unfolding of_char_lower_char by auto
  then show ?thesis by simp
qed


lemma has_word_lower: "has_word (lower s) = has_word s"
  by (simp add: has_word_def lower_def isspace_lower_char)

lemma filter_dropWhile_isspace:
  "filter (\<lambda>c. \<not> isspace c) (dropWhile isspace s) = filter (\<lambda>c. \<not> isspace c) s"
  by (induction s) auto

lemma filter_sub_ws: "filter (\<lambda>c. \<not> isspace c) (sub_ws s) = filter (\<lambda>c. \<not> isspace c) s"
  by (induction s rule: sub_ws.induct) (auto simp: filter_dropWhile_isspace isspace_space)

lemma has_word_filter: "has_word s \<longleftrightarrow> filter (\<lambda>c. \<not> isspace c) s \<noteq> []"
  by (auto simp: has_word_def filter_empty_conv)

lemma has_word_sub_ws: "has_word (sub_ws s) = has_word s"
  by (simp add: has_word_filter filter_sub_ws)

lemma has_word_clean_text: "has_word (clean_text s) = has_word s"
  by (simp add: clean_text_def has_word_strip has_word_sub_ws has_word_lower)

lemma split_ws_Nil_iff: "split_ws s = [] \<longleftrightarrow> \<not> has_word s"
proof -
  have "split_ws s = [] \<longleftrightarrow> dropWhile isspace s = []"
    by (subst split_ws.simps) (simp split: list.splits del: dropWhile_eq_Nil_conv)
  then show ?thesis by (simp only: dropWhile_Nil_has_word)
qed

lemma tokenize_clean_Nil_iff: "tokenize (clean_text text) = [] \<longleftrightarrow> strip text = []"
  by (simp add: tokenize_def split_ws_Nil_iff has_word_clean_text strip_Nil_iff)

lemma counts_fit:
  "counts (fit m text) = count_trigrams (padded_tokens_of (unk_threshold m) (vocab m) text) (counts m)"
proof (cases "strip text = []")
  case True
  then have "tokenize (clean_text text) = []" by (simp add: tokenize_clean_Nil_iff)
  then have "padded_tokens_of (unk_threshold m) (vocab m) text = []"
    by (simp add: padded_tokens_of_def handle_unknown_words_def first_pass_def add_padding_def)
  then show ?thesis using True by (simp add: fit_def count_trigrams_def)
next
  case False
  then have "text \<noteq> []" by (auto simp: strip_def)
  with False show ?thesis
    by (simp add: fit_def padded_tokens_of_def Let_def split: prod.splits)
qed

subsection \<open>Count conservation\<close>

lemma map_of_dict_upd:
  "map_of (dict_upd k d0 f kvs) k' =
     (if k' = k then Some (f (case map_of kvs k of None \<Rightarrow> d0 | Some v \<Rightarrow> v)) else map_of kvs k')"
  by (induction kvs) auto

lemma sum_dict_upd_Suc: "sum_list (map snd (dict_upd k 0 Suc kvs)) = Suc (sum_list (map snd kvs))"
  by (induction kvs) auto

lemma total_count_incr:
  "total_count (incr_trigram a b c cs) w1 w2 =
     total_count cs w1 w2 + (if a = w1 \<and> b = w2 then 1 else 0)"
  by (simp add: total_count_def incr_trigram_def map_of_dict_upd sum_dict_upd_Suc split: option.splits)

lemma total_count_foldl:
  "total_count (foldl (\<lambda>c i. incr_trigram (p ! i) (p ! (i + 1)) (p ! (i + 2)) c) cs is) w1 w2 =
     total_count cs w1 w2 + length (filter (\<lambda>i. p ! i = w1 \<and> p ! (i + 1) = w2) is)"
  by (induction "is" arbitrary: cs) (simp_all add: total_count_incr)

lemma total_count_trigrams:
  "total_count (count_trigrams p cs) w1 w2 = total_count cs w1 w2 + occurrences p w1 w2"
  unfolding count_trigrams_def occurrences_def by (rule total_count_foldl)

text \<open>
  C1. After training a fresh model, the counts stored for a context \<open>(w1, w2)\<close> add up to
  the number of positions of the padded training sequence at which \<open>w1, w2\<close> are followed
  by a third token. Training a model that already holds counts adds that number to the
  mass the context had.
\<close>

theorem count_conservation:
  "total_count (counts (fit (init t) text)) w1 w2 = occurrences (padded_tokens_of t [] text) w1 w2
   \<and> total_count (counts (fit m text)) w1 w2 =
       total_count (counts m) w1 w2
       + occurrences (padded_tokens_of (unk_threshold m) (vocab m) text) w1 w2"
  by (simp add: counts_fit total_count_trigrams) (simp add: init_def total_count_def)

subsection \<open>Unknown-word substitution\<close>

lemma fst_second_pass: "fst (second_pass wc t tokens v) = map (substitute wc t) tokens"
  by (induction tokens arbitrary: v) (simp_all add: substitute_def case_prod_unfold Let_def)

lemma dict_get_upd:
  "dict_get (dict_upd k 0 Suc d) k' = dict_get d k' + (if k' = k then 1 else 0)"
  by (simp add: dict_get_def map_of_dict_upd split: option.splits)

lemma dict_get_foldl:
  "dict_get (foldl (\<lambda>word_counts token.
              if token \<notin> set [START_TOKEN, END_TOKEN, UNK_TOKEN]
              then dict_upd token 0 Suc word_counts else word_counts) wc tokens) w
   = dict_get wc w
     + (if w \<in> set [START_TOKEN, END_TOKEN, UNK_TOKEN] then 0 else count_list tokens w)"
  by (induction tokens arbitrary: wc) (auto simp: dict_get_upd)

lemma dict_get_first_pass:
  "dict_get (first_pass tokens) w =
     (if w \<in> set [START_TOKEN, END_TOKEN, UNK_TOKEN] then 0 else count_list tokens w)"
  unfolding first_pass_def by (subst dict_get_foldl) (simp add: dict_get_def)

lemma sentinels_distinct:
  "START_TOKEN \<noteq> END_TOKEN" "START_TOKEN \<noteq> UNK_TOKEN" "END_TOKEN \<noteq> UNK_TOKEN"
  by (simp_all add: START_TOKEN_def END_TOKEN_def UNK_TOKEN_def)

text \<open>
  C3, as stated, fails on a sentinel: with threshold 1 the one-token sequence holding the
  start token comes back unchanged, although the first pass counted it zero times and it
  occurs once, neither of which is more than 1.
\<close>

theorem sentinel_kept_below_threshold:
  "fst (handle_unknown_words 1 [] [START_TOKEN]) = [START_TOKEN]
   \<and> \<not> 1 < int (dict_get (first_pass [START_TOKEN]) START_TOKEN)
   \<and> \<not> 1 < int (count_list [START_TOKEN] START_TOKEN)"
  by (simp add: handle_unknown_words_def first_pass_def dict_get_def)

text \<open>
  C3, amended. The substitution pass returns a sequence of the same length. A start or end
  token passes through unchanged and the unknown token comes out as the unknown token,
  whatever the threshold. For every other token the first pass counts its occurrences in the
  whole sequence, the token is kept if and only if that count is greater than the
  threshold, and a token that is not kept is replaced by the unknown token.
\<close>

theorem unknown_word_substitution:
  "length (fst (handle_unknown_words t v tokens)) = length tokens
   \<and> (\<forall>i < length tokens.
        let token = tokens ! i; out = fst (handle_unknown_words t v tokens) ! i
        in (token \<in> set [START_TOKEN, END_TOKEN] \<longrightarrow> out = token)
           \<and> (token = UNK_TOKEN \<longrightarrow> out = UNK_TOKEN)
           \<and> (token \<notin> set [START_TOKEN, END_TOKEN, UNK_TOKEN] \<longrightarrow>
                dict_get (first_pass tokens) token = count_list tokens token
                \<and> (out = token \<longleftrightarrow> t < int (count_list tokens token))
                \<and> (out \<noteq> token \<longrightarrow> out = UNK_TOKEN)))"
  by (auto simp: handle_unknown_words_def fst_second_pass substitute_def dict_get_first_pass
        Let_def)

theorem unknown_word_substitution_witness:
  "(0::nat) < length [''a'', START_TOKEN, ''b'', ''a'']
   \<and> (2::nat) < length [''a'', START_TOKEN, ''b'', ''a'']
   \<and> ''a'' \<notin> set [START_TOKEN, END_TOKEN, UNK_TOKEN]
   \<and> ''b'' \<notin> set [START_TOKEN, END_TOKEN, UNK_TOKEN]
   \<and> length (fst (handle_unknown_words 1 [] [''a'', START_TOKEN, ''b'', ''a''])) = 4
   \<and> fst (handle_unknown_words 1 [] [''a'', START_TOKEN, ''b'', ''a'']) ! 0 = ''a''
   \<and> fst (handle_unknown_words 1 [] [''a'', START_TOKEN, ''b'', ''a'']) ! 1 = START_TOKEN
   \<and> fst (handle_unknown_words 1 [] [''a'', START_TOKEN, ''b'', ''a'']) ! 2 = UNK_TOKEN"
proof -
  have a: "''a'' \<notin> set [START_TOKEN, END_TOKEN, UNK_TOKEN]"
    by (simp add: START_TOKEN_def END_TOKEN_def UNK_TOKEN_def)
  have b: "''b'' \<notin> set [START_TOKEN, END_TOKEN, UNK_TOKEN]"
    by (simp add: START_TOKEN_def END_TOKEN_def UNK_TOKEN_def)
  let ?ts = "[''a'', START_TOKEN, ''b'', ''a'']"
  note inst = unknown_word_substitution [of 1 "[]" ?ts]
  from inst have len: "length (fst (handle_unknown_words 1 [] ?ts)) = 4"
    by simp
  from inst have all: "\<forall>i < length ?ts.
        let token = ?ts ! i; out = fst (handle_unknown_words 1 [] ?ts) ! i
        in (token \<in> set [START_TOKEN, END_TOKEN] \<longrightarrow> out = token)
           \<and> (token = UNK_TOKEN \<longrightarrow> out = UNK_TOKEN)
           \<and> (token \<notin> set [START_TOKEN, END_TOKEN, UNK_TOKEN] \<longrightarrow>
                dict_get (first_pass ?ts) token = count_list ?ts token
                \<and> (out = token \<longleftrightarrow> 1 < int (count_list ?ts token))
                \<and> (out \<noteq> token \<longrightarrow> out = UNK_TOKEN))"
    by (rule conjunct2)
  have i0: "fst (handle_unknown_words 1 [] ?ts) ! 0 = ''a''"
    using all [rule_format, of 0]
    by (simp add: Let_def START_TOKEN_def END_TOKEN_def UNK_TOKEN_def)
  have i1: "fst (handle_unknown_words 1 [] ?ts) ! 1 = START_TOKEN"
    using all [rule_format, of 1]
    by (simp add: Let_def START_TOKEN_def END_TOKEN_def UNK_TOKEN_def)
  have i2: "fst (handle_unknown_words 1 [] ?ts) ! 2 = UNK_TOKEN"
    using all [rule_format, of 2]
    by (simp add: Let_def START_TOKEN_def END_TOKEN_def UNK_TOKEN_def)
  show ?thesis using a b len i0 i1 i2 by simp
qed

subsection \<open>Training on text that has a word\<close>

lemma dict_upd_not_Nil: "dict_upd k d0 f kvs \<noteq> []"
  by (cases kvs) (auto split: if_splits)

lemma incr_trigram_not_Nil: "incr_trigram a b c cs \<noteq> []"
  by (simp add: incr_trigram_def dict_upd_not_Nil)

lemma foldl_incr_not_Nil:
  "cs \<noteq> [] \<Longrightarrow>
   foldl (\<lambda>c i. incr_trigram (p ! i) (p ! (i + 1)) (p ! (i + 2)) c) cs is \<noteq> []"
  by (induction "is" arbitrary: cs) (simp_all add: incr_trigram_not_Nil)

lemma count_trigrams_not_Nil: "2 < length p \<Longrightarrow> count_trigrams p cs \<noteq> []"
proof -
  assume "2 < length p"
  then have "[0 ..< length p - 2] = 0 # [1 ..< length p - 2]"
    by (simp add: upt_conv_Cons)
  then show ?thesis
    unfolding count_trigrams_def
    by (simp only: foldl_Cons) (rule foldl_incr_not_Nil, rule incr_trigram_not_Nil)
qed

lemma length_padded_tokens_of:
  "has_word text \<Longrightarrow> 2 < length (padded_tokens_of t v text)"
proof -
  assume "has_word text"
  then have "tokenize (clean_text text) \<noteq> []"
    by (simp add: tokenize_clean_Nil_iff strip_Nil_iff)
  then have "fst (handle_unknown_words t v (tokenize (clean_text text))) \<noteq> []"
    by (simp add: handle_unknown_words_def fst_second_pass)
  then show ?thesis
    by (simp add: padded_tokens_of_def add_padding_def)
qed

lemma trained_fit: "trained (fit m text)"
  by (simp add: fit_def Let_def split: prod.splits)

text \<open>
  C4, as stated, fails on text that is not empty but holds whitespace only: the early
  return of \<open>fit\<close> leaves the count table of a fresh model empty.
\<close>

theorem whitespace_text_leaves_table_empty:
  "'' '' \<noteq> [] \<and> trained (fit (init 1) '' '') \<and> counts (fit (init 1) '' '') = []"
  by code_simp

text \<open>
  C4, amended. For every training text that holds at least one character that is not
  whitespace, after \<open>fit\<close> the trained flag is true and the count table is not empty.
\<close>

theorem fit_counts_nonempty:
  "has_word text \<Longrightarrow> trained (fit m text) \<and> counts (fit m text) \<noteq> []"
  by (simp add: trained_fit counts_fit count_trigrams_not_Nil length_padded_tokens_of)

theorem fit_counts_nonempty_witness:
  "has_word ''a'' \<and> trained (fit (init 1) ''a'') \<and> counts (fit (init 1) ''a'') \<noteq> []"
proof -
  have h: "has_word ''a''"
    by (simp add: has_word_def isspace_def)
  show ?thesis
    using h fit_counts_nonempty [OF h, of "init 1"] by simp
qed

subsection \<open>A concrete corpus\<close>

text \<open>
  C5, as stated, fails: the tokenizer splits on whitespace only, so the word after
  \<open>the cat\<close> is \<open>sat.\<close> with its full stop, and the distribution is not \<open>{sat: 1.0}\<close>.
\<close>

theorem scenario_not_sat:
  "get_next_word_probabilities (fit (init 0) ''the cat sat. the dog sat.'') ''the'' ''cat''
     \<noteq> [(''sat'', 1)]"
  by code_simp

text \<open>
  C5, amended. Training a model with threshold 0 on \<open>the cat sat. the dog sat.\<close> gives the
  context \<open>(the, cat)\<close> the distribution \<open>{sat.: 1.0}\<close> and the context \<open>(the, dog)\<close> the
  distribution \<open>{sat.: 1.0}\<close>.
\<close>

theorem scenario_cat_dog:
  "get_next_word_probabilities (fit (init 0) ''the cat sat. the dog sat.'') ''the'' ''cat''
     = [(''sat.'', 1)]
   \<and> get_next_word_probabilities (fit (init 0) ''the cat sat. the dog sat.'') ''the'' ''dog''
     = [(''sat.'', 1)]"
  by code_simp

subsection \<open>Cleaning is idempotent\<close>

lemma dropWhile_isspace_head:
  "dropWhile isspace s = d # ds \<Longrightarrow> \<not> isspace d"
  using hd_dropWhile [of isspace s] by auto

lemma sub_ws_head:
  "sub_ws s = d # ds \<Longrightarrow> s \<noteq> [] \<and> (isspace d \<longleftrightarrow> isspace (hd s))"
  by (cases s) (auto simp: isspace_space split: if_splits)

lemma normal_sub_ws: "normal (sub_ws s)"
proof (induction s rule: sub_ws.induct)
  case 1
  show ?case by simp
next
  case (2 c cs)
  show ?case
  proof (cases "isspace c")
    case True
    have "case sub_ws (dropWhile isspace cs) of [] \<Rightarrow> True | d # ds \<Rightarrow> \<not> isspace d"
    proof (cases "sub_ws (dropWhile isspace cs)")
      case Nil
      then show ?thesis by simp
    next
      case (Cons d ds)
      from sub_ws_head [OF Cons] obtain e es where
        e: "dropWhile isspace cs = e # es" and "isspace d \<longleftrightarrow> isspace e"
        by (cases "dropWhile isspace cs") auto
      with dropWhile_isspace_head [OF e] Cons show ?thesis by simp
    qed
    with True 2 show ?thesis by simp
  next
    case False
    with 2 show ?thesis by simp
  qed
qed

lemma normal_fixed: "normal s \<Longrightarrow> sub_ws s = s"
proof (induction s rule: sub_ws.induct)
  case 1
  show ?case by simp
next
  case (2 c cs)
  show ?case
  proof (cases "isspace c")
    case True
    with 2(3) have c: "c = CHR '' ''" and n: "normal cs"
      and h: "case cs of [] \<Rightarrow> True | d # ds \<Rightarrow> \<not> isspace d"
      by simp_all
    from h have "dropWhile isspace cs = cs" by (cases cs) auto
    with 2(1) [OF True] n True c show ?thesis by simp
  next
    case False
    with 2 show ?thesis by simp
  qed
qed

lemma normal_take: "normal s \<Longrightarrow> normal (take n s)"
proof (induction s arbitrary: n)
  case Nil
  show ?case by simp
next
  case (Cons c cs)
  show ?case
  proof (cases n)
    case 0
    then show ?thesis by simp
  next
    case (Suc k)
    have "case take k cs of [] \<Rightarrow> True | d # ds \<Rightarrow> \<not> isspace d"
      if "case cs of [] \<Rightarrow> True | d # ds \<Rightarrow> \<not> isspace d"
      using that by (cases cs; cases k) auto
    with Cons Suc show ?thesis by auto
  qed
qed

lemma normal_dropWhile: "normal s \<Longrightarrow> normal (dropWhile P s)"
  by (induction s) auto

lemma rstrip_take:
  "rev (dropWhile P (rev s)) = take (length s - length (takeWhile P (rev s))) s"
proof -
  have "dropWhile P (rev s) = drop (length (takeWhile P (rev s))) (rev s)"
    by (rule dropWhile_eq_drop)
  then show ?thesis by (simp add: drop_rev)
qed

lemma normal_strip: "normal s \<Longrightarrow> normal (strip s)"
  unfolding strip_def rstrip_take by (intro normal_take normal_dropWhile)

lemma dropWhile_take_fixed:
  "dropWhile P s = s \<Longrightarrow> dropWhile P (take n s) = take n s"
proof (cases s)
  case Nil
  then show ?thesis by simp
next
  case (Cons a as)
  assume fixed: "dropWhile P s = s"
  have "\<not> P a"
  proof
    assume "P a"
    with fixed Cons have "dropWhile P as = a # as" by simp
    then have "length (dropWhile P as) = Suc (length as)" by simp
    with length_dropWhile_le [of P as] show False by simp
  qed
  with Cons show ?thesis by (cases n) auto
qed

lemma dropWhile_dropWhile: "dropWhile P (dropWhile P s) = dropWhile P s"
  by (induction s) auto

lemma strip_strip: "strip (strip s) = strip s"
proof -
  let ?t = "dropWhile isspace s"
  let ?u = "rev (dropWhile isspace (rev ?t))"
  have u: "strip s = ?u" by (simp add: strip_def)
  have "?u = take (length ?t - length (takeWhile isspace (rev ?t))) ?t"
    by (rule rstrip_take)
  then have front: "dropWhile isspace ?u = ?u"
    using dropWhile_take_fixed [of isspace ?t] by (simp add: dropWhile_dropWhile)
  have "strip ?u = rev (dropWhile isspace (rev (dropWhile isspace ?u)))"
    by (simp only: strip_def)
  also have "\<dots> = rev (dropWhile isspace (rev ?u))"
    by (simp only: front)
  also have "\<dots> = ?u"
    by (simp add: dropWhile_dropWhile)
  finally show ?thesis by (simp only: u)
qed

lemma set_sub_ws: "set (sub_ws s) \<subseteq> insert CHR '' '' (set s)"
proof (induction s rule: sub_ws.induct)
  case 1
  show ?case by simp
next
  case (2 c cs)
  have "set (dropWhile isspace cs) \<subseteq> set cs"
    by (auto dest: set_dropWhileD)
  with 2 show ?case by auto
qed

lemma set_strip: "set (strip s) \<subseteq> set s"
  by (auto simp: strip_def dest!: set_dropWhileD)

lemma lower_char_space: "lower_char CHR '' '' = CHR '' ''"
  by (simp add: lower_char_def)

lemma lower_clean_text: "lower (clean_text x) = clean_text x"
proof -
  have "\<forall>c \<in> set (clean_text x). lower_char c = c"
  proof
    fix c assume "c \<in> set (clean_text x)"
    then have "c \<in> insert CHR '' '' (set (lower x))"
      using set_strip set_sub_ws unfolding clean_text_def by blast
    then show "lower_char c = c"
      by (auto simp: lower_def lower_char_space lower_char_idem)
  qed
  then show ?thesis by (simp add: lower_def map_idI)
qed

text \<open>
  C9. Cleaning a cleaned string gives the same string: \<open>clean(clean(x)) = clean(x)\<close>,
  where \<open>clean\<close> is \<open>_clean_text\<close>, which lowercases, replaces each run of
  whitespace by one space and strips both ends.
\<close>

theorem clean_text_idempotent: "clean_text (clean_text x) = clean_text x"
proof -
  have n: "normal (clean_text x)"
    by (simp add: clean_text_def normal_strip normal_sub_ws)
  have "clean_text (clean_text x) = strip (sub_ws (clean_text x))"
    by (simp add: clean_text_def [of "clean_text x"] lower_clean_text)
  also have "\<dots> = strip (clean_text x)"
    by (simp add: normal_fixed [OF n])
  also have "\<dots> = clean_text x"
    by (simp add: clean_text_def strip_strip)
  finally show ?thesis .
qed

subsection \<open>The next-word distribution\<close>

lemma total_count_items: "total_count (counts m) w1 w2 = sum_list (map snd (context_items m w1 w2))"
  by (simp add: total_count_def context_items_def split: option.splits)

lemma probs_eq:
  "get_next_word_probabilities m w1 w2 =
     (if total_count (counts m) w1 w2 = 0 then []
      else map (\<lambda>(word, count). (word, truediv count (total_count (counts m) w1 w2)))
             (context_items m w1 w2))"
  by (simp add: get_next_word_probabilities_def total_count_def context_items_def Let_def
        split: option.splits del: sum_list_eq_0_iff)

lemma total_absent: "\<not> in_table m w1 w2 \<Longrightarrow> total_count (counts m) w1 w2 = 0"
  by (auto simp: in_table_def total_count_def split: option.splits)

lemma map_of_quotients:
  "map_of (map (\<lambda>(word, count). (word, f count)) xs) w = map_option f (map_of xs w)"
  by (induction xs) auto

lemma map_fst_quotients:
  "map fst (map (\<lambda>(word, count). (word, f count)) xs) = map fst xs"
  by (induction xs) auto

text \<open>
  C2. For a context \<open>(w1, w2)\<close> that is in the count table with positive total mass, the
  distribution function returns exactly the pairs \<open>(w3, count / total)\<close> for the third
  tokens stored under that context, in their stored order, the quotient being the float
  that Python's division of the two integers gives: looking a token up gives its stored
  count divided by the total mass of the context if the token was observed and nothing
  otherwise. For a context that is not in the table, or that has total mass zero, the
  function returns the empty list.
\<close>

theorem next_word_distribution:
  "(in_table m w1 w2 \<and> 0 < total_count (counts m) w1 w2 \<longrightarrow>
      get_next_word_probabilities m w1 w2 =
        map (\<lambda>(w3, count). (w3, truediv count (total_count (counts m) w1 w2)))
          (context_items m w1 w2)
      \<and> map fst (get_next_word_probabilities m w1 w2) = map fst (context_items m w1 w2)
      \<and> map_of (get_next_word_probabilities m w1 w2) w3 =
          (if w3 \<in> fst ` set (context_items m w1 w2)
           then Some (truediv (trigram_count m w1 w2 w3) (total_count (counts m) w1 w2))
           else None))
   \<and> (\<not> in_table m w1 w2 \<or> total_count (counts m) w1 w2 = 0 \<longrightarrow>
        get_next_word_probabilities m w1 w2 = [])"
proof -
  have absent: "\<not> in_table m w1 w2 \<or> total_count (counts m) w1 w2 = 0 \<longrightarrow>
        get_next_word_probabilities m w1 w2 = []"
    using total_absent [of m w1 w2] by (auto simp: probs_eq)
  have present: "get_next_word_probabilities m w1 w2 =
        map (\<lambda>(w3, count). (w3, truediv count (total_count (counts m) w1 w2)))
          (context_items m w1 w2)
      \<and> map fst (get_next_word_probabilities m w1 w2) = map fst (context_items m w1 w2)
      \<and> map_of (get_next_word_probabilities m w1 w2) w3 =
          (if w3 \<in> fst ` set (context_items m w1 w2)
           then Some (truediv (trigram_count m w1 w2 w3) (total_count (counts m) w1 w2))
           else None)"
    if pos: "0 < total_count (counts m) w1 w2"
  proof -
    let ?t = "total_count (counts m) w1 w2"
    let ?q = "map (\<lambda>(w3, count). (w3, truediv count ?t)) (context_items m w1 w2)"
    have p: "get_next_word_probabilities m w1 w2 = ?q"
      using pos by (simp add: probs_eq)
    have keys: "map fst ?q = map fst (context_items m w1 w2)"
      by (rule map_fst_quotients)
    have look: "map_of ?q w3 =
          (if w3 \<in> fst ` set (context_items m w1 w2)
           then Some (truediv (trigram_count m w1 w2 w3) ?t) else None)"
    proof (cases "map_of (context_items m w1 w2) w3")
      case None
      then have "w3 \<notin> fst ` set (context_items m w1 w2)"
        by (simp add: map_of_eq_None_iff)
      with None show ?thesis by (simp add: map_of_quotients)
    next
      case (Some c)
      then have "w3 \<in> fst ` set (context_items m w1 w2)"
        by (metis map_of_eq_None_iff option.distinct(1))
      with Some show ?thesis
        by (simp add: map_of_quotients trigram_count_def dict_get_def)
    qed
    show ?thesis
      using keys look by (simp only: p)
  qed
  show ?thesis using absent present by blast
qed

theorem next_word_distribution_witness:
  "in_table (fit (init 0) ''a b c a b d a b e'') ''a'' ''b''
   \<and> 0 < total_count (counts (fit (init 0) ''a b c a b d a b e'')) ''a'' ''b''
   \<and> get_next_word_probabilities (fit (init 0) ''a b c a b d a b e'') ''a'' ''b''
       = [(''c'', 6004799503160661 / 18014398509481984),
          (''d'', 6004799503160661 / 18014398509481984),
          (''e'', 6004799503160661 / 18014398509481984)]
   \<and> map_of (get_next_word_probabilities (fit (init 0) ''a b c a b d a b e'') ''a'' ''b'') ''d''
       = Some (6004799503160661 / 18014398509481984)
   \<and> \<not> in_table (fit (init 0) ''a b c a b d a b e'') ''b'' ''a''
   \<and> get_next_word_probabilities (fit (init 0) ''a b c a b d a b e'') ''b'' ''a'' = []"
proof -
  let ?m = "fit (init 0) ''a b c a b d a b e''"
  have h1: "in_table ?m ''a'' ''b''"
    by code_simp
  have h2: "total_count (counts ?m) ''a'' ''b'' = 3"
    by code_simp
  have h3: "context_items ?m ''a'' ''b'' = [(''c'', 1), (''d'', 1), (''e'', 1)]"
    by code_simp
  have h4: "\<not> in_table ?m ''b'' ''a''"
    by code_simp
  have h5: "trigram_count ?m ''a'' ''b'' ''d'' = 1"
    by code_simp
  have h6: "truediv 1 3 = 6004799503160661 / 18014398509481984"
    by code_simp
  show ?thesis
    using h1 h2 h3 h4 h5 h6
      next_word_distribution [of ?m "''a''" "''b''" "''d''"]
      next_word_distribution [of ?m "''b''" "''a''" "''d''"]
    by simp
qed

subsection \<open>Rounding keeps the sign\<close>

lemma pow2_powi: "pow2 e = 2 powi e"
  by (simp add: pow2_def power_int_def field_simps)

lemma pow2_pos: "0 < pow2 e"
  by (simp add: pow2_powi)

lemma pow2_diff: "pow2 (int a - int b) = 2 ^ a / 2 ^ b"
  by (simp add: pow2_powi power_int_diff)

lemma pow2_add: "pow2 (a + b) = pow2 a * pow2 b"
  by (simp add: pow2_powi power_int_add)

lemma bit_length_bounds:
  "0 < n \<Longrightarrow> 2 ^ (bit_length n - 1) \<le> n \<and> n < 2 ^ bit_length n"
proof (induction n rule: bit_length.induct)
  case (1 n)
  show ?case
  proof (cases "n div 2 \<le> 0")
    case True
    with 1(2) have "n = 1" by presburger
    moreover have "bit_length 1 = Suc 0"
      by (simp add: bit_length.simps [of 1] bit_length.simps [of 0])
    ultimately show ?thesis by simp
  next
    case False
    with 1 have ih: "2 ^ (bit_length (n div 2) - 1) \<le> n div 2"
      "n div 2 < 2 ^ bit_length (n div 2)"
      by simp_all
    have pos: "0 < bit_length (n div 2)"
      using False by (simp add: bit_length.simps [of "n div 2"])
    have b: "bit_length n = Suc (bit_length (n div 2))"
      using 1(2) by (simp add: bit_length.simps [of n])
    have "(2::int) ^ (bit_length n - 1) = 2 * 2 ^ (bit_length (n div 2) - 1)"
      using pos b by (cases "bit_length (n div 2)") simp_all
    also have "\<dots> \<le> 2 * (n div 2)" using ih(1) by simp
    also have "\<dots> \<le> n" by presburger
    finally have lo: "2 ^ (bit_length n - 1) \<le> n" .
    have "n < 2 * (n div 2) + 2" by presburger
    also have "\<dots> \<le> 2 * 2 ^ bit_length (n div 2)" using ih(2) by simp
    finally have "n < 2 ^ bit_length n" using b by simp
    with lo show ?thesis by simp
  qed
qed

lemma floor_log2_bounds:
  assumes "0 < x"
  shows "pow2 (floor_log2 x) \<le> x" and "x < pow2 (floor_log2 x + 1)"
proof -
  obtain p q where pq: "quotient_of x = (p, q)" by (cases "quotient_of x")
  then have q: "0 < q" and x: "x = of_int p / of_int q"
    by (rule quotient_of_denom_pos, rule quotient_of_div)
  have p: "0 < p"
    using assms q x by (simp add: zero_less_divide_iff)
  let ?k = "int (bit_length p) - int (bit_length q)"
  have P: "2 ^ (bit_length p - 1) \<le> p" "p < 2 ^ bit_length p"
    using bit_length_bounds [of p] p by simp_all
  have Q: "2 ^ (bit_length q - 1) \<le> q" "q < 2 ^ bit_length q"
    using bit_length_bounds [of q] q by simp_all
  have bp: "0 < bit_length p" using p by (simp add: bit_length.simps [of p])
  have bq: "0 < bit_length q" using q by (simp add: bit_length.simps [of q])
  have Qpos: "(0::rat) < of_int q" using q by simp
  have lower: "pow2 (?k - 1) \<le> x"
  proof -
    have "?k - 1 = int (bit_length p - 1) - int (bit_length q)"
      using bp by simp
    then have "pow2 (?k - 1) = 2 ^ (bit_length p - 1) / 2 ^ bit_length q"
      by (simp only: pow2_diff)
    also have "\<dots> \<le> of_int p / 2 ^ bit_length q"
    proof -
      have "(of_int (2 ^ (bit_length p - 1)) :: rat) \<le> of_int p"
        using P(1) by (simp only: of_int_le_iff)
      then show ?thesis by (simp add: divide_right_mono)
    qed
    also have "\<dots> \<le> of_int p / of_int q"
    proof -
      have "(of_int q :: rat) \<le> of_int (2 ^ bit_length q)"
        using Q(2) by (simp only: of_int_le_iff)
      then show ?thesis using Qpos p by (intro frac_le) simp_all
    qed
    finally show ?thesis by (simp only: x [symmetric])
  qed
  have upper: "x < pow2 (?k + 1)"
  proof -
    have "?k + 1 = int (bit_length p) - int (bit_length q - 1)"
      using bq by simp
    then have e: "pow2 (?k + 1) = 2 ^ bit_length p / 2 ^ (bit_length q - 1)"
      by (simp only: pow2_diff)
    have "x < 2 ^ bit_length p / of_int q"
    proof -
      have "(of_int p :: rat) < of_int (2 ^ bit_length p)"
        using P(2) by (simp only: of_int_less_iff)
      then show ?thesis using Qpos by (simp add: x divide_strict_right_mono)
    qed
    also have "\<dots> \<le> 2 ^ bit_length p / 2 ^ (bit_length q - 1)"
    proof -
      have "(of_int (2 ^ (bit_length q - 1)) :: rat) \<le> of_int q"
        using Q(1) by (simp only: of_int_le_iff)
      then show ?thesis by (intro frac_le) simp_all
    qed
    finally show ?thesis by (simp only: e)
  qed
  have fl: "floor_log2 x = (if pow2 ?k \<le> x then ?k else ?k - 1)"
    by (simp add: floor_log2_def pq Let_def)
  show "pow2 (floor_log2 x) \<le> x"
    using lower by (simp add: fl)
  show "x < pow2 (floor_log2 x + 1)"
    using upper by (auto simp: fl not_le)
qed

lemma round_half_even_ge: "\<lfloor>y\<rfloor> \<le> round_half_even y"
  by (simp add: round_half_even_def Let_def)

lemma round_double_pos: "0 < x \<Longrightarrow> 0 < round_double x"
proof -
  assume x: "0 < x"
  let ?e = "floor_log2 x - 52"
  have "pow2 (floor_log2 x) = pow2 ?e * pow2 52"
    using pow2_add [of ?e 52] by simp
  with floor_log2_bounds(1) [OF x] have "pow2 ?e * pow2 52 \<le> x" by simp
  then have "pow2 52 \<le> x / pow2 ?e"
    using pow2_pos [of ?e] by (simp add: pos_le_divide_eq mult.commute)
  moreover have "(1::rat) \<le> pow2 52" by (simp add: pow2_def)
  ultimately have "1 \<le> x / pow2 ?e" by linarith
  then have "1 \<le> \<lfloor>x / pow2 ?e\<rfloor>" by (simp add: le_floor_iff)
  with round_half_even_ge [of "x / pow2 ?e"] have "0 < round_half_even (x / pow2 ?e)"
    by linarith
  then have "0 < of_int (round_half_even (x / pow2 ?e)) * pow2 ?e"
    using pow2_pos [of ?e] by simp
  then show ?thesis
    using x by (simp add: round_double_def Let_def)
qed

lemma round_double_nonneg: "0 \<le> x \<Longrightarrow> 0 \<le> round_double x"
  using round_double_pos [of x] by (cases "x = 0") (auto simp: round_double_def)
subsection \<open>The sampler\<close>

lemma length_accumulate_from: "length (accumulate_from a ws) = length ws"
  by (induction ws arbitrary: a) auto

lemma length_accumulate: "length (accumulate ws) = length ws"
  by (cases ws) (simp_all add: accumulate_def length_accumulate_from)

lemma last_accumulate_from_pos:
  "0 \<le> acc \<Longrightarrow> \<forall>w \<in> set ws. 0 \<le> w \<Longrightarrow> 0 < acc \<or> (\<exists>w \<in> set ws. 0 < w) \<Longrightarrow>
   0 < last (acc # accumulate_from acc ws)"
proof (induction ws arbitrary: acc)
  case Nil
  then show ?case by simp
next
  case (Cons w ws)
  have w: "0 \<le> w" using Cons.prems(2) by simp
  have nonneg: "0 \<le> fadd acc w"
    using Cons.prems(1) w by (simp add: fadd_def round_double_nonneg)
  have "0 < fadd acc w \<or> (\<exists>v \<in> set ws. 0 < v)"
  proof (cases "0 < acc \<or> 0 < w")
    case True
    with Cons.prems(1) w have "0 < acc + w" by auto
    then show ?thesis by (simp add: fadd_def round_double_pos)
  next
    case False
    with Cons.prems(3) show ?thesis by auto
  qed
  with Cons.IH [of "fadd acc w"] nonneg Cons.prems(2)
  have "0 < last (fadd acc w # accumulate_from (fadd acc w) ws)" by simp
  then show ?case by simp
qed

lemma last_accumulate_pos:
  assumes "\<forall>w \<in> set ws. 0 \<le> w" and "\<exists>w \<in> set ws. 0 < w"
  shows "0 < last (accumulate ws)"
proof (cases ws)
  case Nil
  with assms(2) show ?thesis by simp
next
  case (Cons w vs)
  with assms have "0 \<le> w" "\<forall>v \<in> set vs. 0 \<le> v" "0 < w \<or> (\<exists>v \<in> set vs. 0 < v)"
    by auto
  then have "0 < last (w # accumulate_from w vs)"
    by (rule last_accumulate_from_pos)
  with Cons show ?thesis by (simp add: accumulate_def)
qed

lemma bisect_le: "bisect cum x hi \<le> hi"
proof -
  have "length (takeWhile (\<lambda>c. c \<le> x) (take hi cum)) \<le> length (take hi cum)"
    by (rule length_takeWhile_le)
  then show ?thesis by (simp add: bisect_def)
qed

lemma choices_ok:
  assumes "population \<noteq> []" "length weights = length population"
    and "\<forall>w \<in> set weights. 0 \<le> w" and "\<exists>w \<in> set weights. 0 < w"
  shows "\<exists>w \<in> set population.
           choices population weights e = Inr (w, e\<lparr>consumed := Suc (consumed e)\<rparr>)"
proof -
  let ?cum = "accumulate weights"
  let ?n = "length population"
  let ?total = "fadd (last ?cum) 0"
  have len: "length ?cum = ?n" using assms by (simp add: length_accumulate)
  have ne: "?cum \<noteq> []" using len assms by auto
  have "0 < last ?cum" using assms(3,4) by (rule last_accumulate_pos)
  then have total: "0 < ?total" by (simp add: fadd_def round_double_pos)
  let ?i = "bisect ?cum (fmul (source e (consumed e)) ?total) (?n - 1)"
  have "?i \<le> ?n - 1" by (rule bisect_le)
  with assms have "?i < ?n" by (cases population) auto
  then have mem: "population ! ?i \<in> set population" by simp
  have "choices population weights e =
          Inr (population ! ?i, e\<lparr>consumed := Suc (consumed e)\<rparr>)"
    using len ne total
    by (simp add: choices_def Let_def random_draw_def)
  with mem show ?thesis by blast
qed

lemma truediv_sign: "0 \<le> truediv a b" "0 < a \<Longrightarrow> 0 < b \<Longrightarrow> 0 < truediv a b"
  by (simp_all add: truediv_def round_double_nonneg round_double_pos)

lemma probs_keys_weights:
  assumes "0 < total_count (counts m) w1 w2"
  shows "map fst (get_next_word_probabilities m w1 w2) = map fst (context_items m w1 w2)"
    and "\<forall>w \<in> set (map snd (get_next_word_probabilities m w1 w2)). 0 \<le> w"
    and "\<exists>w \<in> set (map snd (get_next_word_probabilities m w1 w2)). 0 < w"
proof -
  let ?t = "total_count (counts m) w1 w2"
  let ?q = "map (\<lambda>(word, count). (word, truediv count ?t)) (context_items m w1 w2)"
  have p: "get_next_word_probabilities m w1 w2 = ?q"
    using assms by (simp add: probs_eq)
  show "map fst (get_next_word_probabilities m w1 w2) = map fst (context_items m w1 w2)"
    unfolding p by (rule map_fst_quotients)
  show "\<forall>w \<in> set (map snd (get_next_word_probabilities m w1 w2)). 0 \<le> w"
    unfolding p by (auto simp: truediv_sign(1))
  have "sum_list (map snd (context_items m w1 w2)) \<noteq> 0"
    using assms by (simp only: total_count_items)
  then obtain word c where wc: "(word, c) \<in> set (context_items m w1 w2)" and c: "0 < c"
    by (auto simp: sum_list_eq_0_iff)
  from wc have "(word, truediv c ?t) \<in> set ?q" by force
  then have "truediv c ?t \<in> set (map snd ?q)" by force
  moreover have "0 < truediv c ?t" using c assms by (rule truediv_sign(2))
  ultimately show "\<exists>w \<in> set (map snd (get_next_word_probabilities m w1 w2)). 0 < w"
    unfolding p by blast
qed

lemma sample_cases:
  "sample_next_word m w1 w2 e = Inr (END_TOKEN, e)
   \<or> (\<exists>w \<in> fst ` set (context_items m w1 w2).
         sample_next_word m w1 w2 e = Inr (w, e\<lparr>consumed := Suc (consumed e)\<rparr>))"
proof (cases "get_next_word_probabilities m w1 w2 = []")
  case True
  then show ?thesis by (simp add: sample_empty)
next
  case False
  let ?p = "get_next_word_probabilities m w1 w2"
  from False have pos: "0 < total_count (counts m) w1 w2"
    by (auto simp: probs_eq split: if_splits)
  note facts = probs_keys_weights [OF pos]
  have keys: "map fst ?p = map fst (context_items m w1 w2)"
    by (rule facts(1))
  have "\<exists>w \<in> set (map fst ?p).
          choices (map fst ?p) (map snd ?p) e = Inr (w, e\<lparr>consumed := Suc (consumed e)\<rparr>)"
    using False by (intro choices_ok facts(2) facts(3)) simp_all
  then show ?thesis
    using False keys by (simp add: sample_next_word_def Let_def)
qed

subsection \<open>The generation loop\<close>

lemma loop_step_words:
  "(if w \<notin> set [START_TOKEN, END_TOKEN, UNK_TOKEN] then ws @ [w]
    else if w = UNK_TOKEN then ws @ [w] else ws) = ws @ emitted w"
  using sentinels_distinct by (auto simp: emitted_def)

lemma context_items_thirds: "fst ` set (context_items m w1 w2) \<subseteq> thirds (counts m)"
proof
  fix w assume w: "w \<in> fst ` set (context_items m w1 w2)"
  obtain d1 where d1: "map_of (counts m) w1 = Some d1"
    using w by (cases "map_of (counts m) w1") (auto simp: context_items_def)
  obtain ctx where ctx: "map_of d1 w2 = Some ctx"
    using w d1 by (cases "map_of d1 w2") (auto simp: context_items_def)
  have c: "context_items m w1 w2 = ctx"
    using d1 ctx by (simp add: context_items_def)
  from d1 have "(w1, d1) \<in> set (counts m)" by (rule map_of_SomeD)
  moreover from ctx have "(w2, ctx) \<in> set d1" by (rule map_of_SomeD)
  ultimately show "w \<in> thirds (counts m)"
    using w c unfolding thirds_def by fast
qed

lemma generate_loop_result:
  "\<exists>new e'. generate_loop m L w1 w2 ws len e = Inr (ws @ new, e')
      \<and> int (length new) \<le> max 0 (L - len)
      \<and> set new \<subseteq> thirds (counts m) - {START_TOKEN, END_TOKEN}
      \<and> int (consumed e') \<le> int (consumed e) + max 0 (L - len)
      \<and> source e' = source e"
proof (induction m L w1 w2 ws len e rule: generate_loop.induct)
  case (1 m L w1 w2 ws len e)
  show ?case
  proof (cases "len < L")
    case False
    then have "generate_loop m L w1 w2 ws len e = Inr (ws @ [], e)"
      by (subst generate_loop.simps) simp
    then show ?thesis by force
  next
    case True
    let ?e1 = "e\<lparr>consumed := Suc (consumed e)\<rparr>"
    from sample_cases [of m w1 w2 e]
    consider (stop) "sample_next_word m w1 w2 e = Inr (END_TOKEN, e)"
      | (word) w where "w \<in> fst ` set (context_items m w1 w2)"
          "sample_next_word m w1 w2 e = Inr (w, ?e1)"
      by blast
    then show ?thesis
    proof cases
      case stop
      with True have "generate_loop m L w1 w2 ws len e = Inr (ws @ [], e)"
        by (subst generate_loop.simps) simp
      then show ?thesis using True by force
    next
      case word
      show ?thesis
      proof (cases "w = END_TOKEN")
        case w_end: True
        with True word have "generate_loop m L w1 w2 ws len e = Inr (ws @ [], ?e1)"
          by (subst generate_loop.simps) simp
        moreover have "int (consumed ?e1) \<le> int (consumed e) + max 0 (L - len)"
          using True by simp
        ultimately show ?thesis by force
      next
        case w_word: False
        from "1.IH" [OF True word(2) refl w_word]
        obtain new e' where
          r: "generate_loop m L w2 w (ws @ emitted w) (len + 1) ?e1 = Inr ((ws @ emitted w) @ new, e')"
          and l: "int (length new) \<le> max 0 (L - (len + 1))"
          and s: "set new \<subseteq> thirds (counts m) - {START_TOKEN, END_TOKEN}"
          and c: "int (consumed e') \<le> int (consumed ?e1) + max 0 (L - (len + 1))"
          and src: "source e' = source ?e1"
          unfolding loop_step_words by blast
        have "generate_loop m L w1 w2 ws len e = Inr (ws @ (emitted w @ new), e')"
          by (subst generate_loop.simps)
            (simp only: True word(2) w_word r loop_step_words if_True if_False sum.case
               prod.case append_assoc)
        moreover have "int (length (emitted w @ new)) \<le> max 0 (L - len)"
          using l True by (simp add: emitted_def)
        moreover have "set (emitted w @ new) \<subseteq> thirds (counts m) - {START_TOKEN, END_TOKEN}"
          using s word(1) context_items_thirds [of m w1 w2] by (auto simp: emitted_def)
        moreover have "int (consumed e') \<le> int (consumed e) + max 0 (L - len)"
          using c True by simp
        moreover have "source e' = source e"
          using src by simp
        ultimately show ?thesis by blast
      qed
    qed
  qed
qed

lemma generate_words_result:
  "\<exists>ws e'. generate_words m L seed e = Inr (ws, e')
      \<and> int (length ws) \<le> max 0 L
      \<and> set ws \<subseteq> thirds (counts m) - {START_TOKEN, END_TOKEN}
      \<and> int (consumed e') \<le> int (consumed e) + max 0 L
      \<and> source e' = source e"
proof (cases "\<not> trained m \<or> counts m = []")
  case True
  then have "generate_words m L seed e = Inr ([], e)"
    by (auto simp: generate_words_def)
  then show ?thesis by simp
next
  case False
  obtain w1 w2 where seed: "(case seed of None \<Rightarrow> (START_TOKEN, START_TOKEN) | Some s \<Rightarrow> s) = (w1, w2)"
    by (cases "case seed of None \<Rightarrow> (START_TOKEN, START_TOKEN) | Some s \<Rightarrow> s") auto
  with False have "generate_words m L seed e = generate_loop m L w1 w2 [] 0 e"
    by (simp add: generate_words_def)
  with generate_loop_result [of m L w1 w2 "[]" 0 e] show ?thesis by auto
qed

lemma generate_of_words:
  "generate_words m L seed e = Inr (ws, e') \<Longrightarrow> generate m L seed e = Inr (join_sp ws, e')"
  by (simp add: generate_def)

subsection \<open>Third tokens of trained models\<close>

lemma keys_dict_upd: "fst ` set (dict_upd k d0 f kvs) = insert k (fst ` set kvs)"
proof (induction kvs)
  case Nil
  show ?case by simp
next
  case (Cons kv kvs)
  obtain k' v where kv: "kv = (k', v)" by (cases kv)
  show ?case
  proof (cases "k' = k")
    case True
    with kv show ?thesis by auto
  next
    case False
    with kv Cons show ?thesis by auto
  qed
qed

lemma UN_dict_upd:
  assumes "\<And>v. g (f v) = g v \<union> X" and "g d0 = {}"
  shows "(\<Union>(k, v) \<in> set (dict_upd k0 d0 f kvs). g v) = (\<Union>(k, v) \<in> set kvs. g v) \<union> X"
proof (induction kvs)
  case Nil
  show ?case using assms by simp
next
  case (Cons kv kvs)
  obtain k' v where kv: "kv = (k', v)" by (cases kv)
  show ?case
  proof (cases "k' = k0")
    case True
    with kv show ?thesis by (simp add: assms(1) Un_ac)
  next
    case False
    with kv Cons show ?thesis by (simp add: Un_ac)
  qed
qed

lemma thirds_incr_trigram: "thirds (incr_trigram a b c cs) = insert c (thirds cs)"
proof -
  let ?g2 = "\<lambda>ctx :: (string, nat) dict. fst ` set ctx"
  let ?g1 = "\<lambda>d1 :: (string, (string, nat) dict) dict. \<Union>(w2, ctx) \<in> set d1. ?g2 ctx"
  have inner: "?g2 (dict_upd c 0 Suc ctx) = ?g2 ctx \<union> {c}" for ctx
    by (simp add: keys_dict_upd)
  have middle: "?g1 (dict_upd b [] (dict_upd c 0 Suc) d1) = ?g1 d1 \<union> {c}" for d1
    by (rule UN_dict_upd) (simp_all add: inner)
  have "(\<Union>(w1, d1) \<in> set (dict_upd a [] (dict_upd b [] (dict_upd c 0 Suc)) cs). ?g1 d1)
          = (\<Union>(w1, d1) \<in> set cs. ?g1 d1) \<union> {c}"
    by (rule UN_dict_upd) (simp_all add: middle)
  then show ?thesis by (simp add: thirds_def incr_trigram_def)
qed

lemma thirds_foldl:
  "thirds (foldl (\<lambda>c i. incr_trigram (p ! i) (p ! (i + 1)) (p ! (i + 2)) c) cs is)
     = thirds cs \<union> (\<lambda>i. p ! (i + 2)) ` set is"
  by (induction "is" arbitrary: cs) (auto simp: thirds_incr_trigram)

lemma thirds_count_trigrams: "thirds (count_trigrams p cs) \<subseteq> thirds cs \<union> set (drop 2 p)"
proof -
  have "(\<lambda>i. p ! (i + 2)) ` set [0 ..< length p - 2] \<subseteq> set (drop 2 p)"
  proof
    fix w assume "w \<in> (\<lambda>i. p ! (i + 2)) ` set [0 ..< length p - 2]"
    then obtain i where i: "i < length p - 2" and w: "w = p ! (i + 2)" by auto
    then have "w = drop 2 p ! i" by (simp add: add.commute)
    moreover have "i < length (drop 2 p)" using i by simp
    ultimately show "w \<in> set (drop 2 p)" by (metis nth_mem)
  qed
  then show ?thesis
    unfolding count_trigrams_def thirds_foldl by blast
qed

lemma set_handle_unknown_words:
  "set (fst (handle_unknown_words t v tokens)) \<subseteq> insert UNK_TOKEN (set tokens)"
  by (auto simp: handle_unknown_words_def fst_second_pass substitute_def)

lemma drop_padded_tokens_of:
  "set (drop 2 (padded_tokens_of t v text))
     \<subseteq> {UNK_TOKEN, END_TOKEN} \<union> set (tokenize (clean_text text))"
  using set_handle_unknown_words [of t v "tokenize (clean_text text)"]
  by (auto simp: padded_tokens_of_def add_padding_def)

lemma thirds_fit:
  "thirds (counts (fit m text))
     \<subseteq> thirds (counts m) \<union> {UNK_TOKEN, END_TOKEN} \<union> set (tokenize (clean_text text))"
  using thirds_count_trigrams [of "padded_tokens_of (unk_threshold m) (vocab m) text" "counts m"]
    drop_padded_tokens_of [of "unk_threshold m" "vocab m" "text"]
  unfolding counts_fit by blast

lemma thirds_init: "thirds (counts (init t)) = {}"
  by (simp add: init_def thirds_def)

lemma thirds_fit_all:
  "thirds (counts (fit_all t texts))
     \<subseteq> {UNK_TOKEN, END_TOKEN} \<union> (\<Union>text \<in> set texts. set (tokenize (clean_text text)))"
proof (induction texts rule: rev_induct)
  case Nil
  show ?case by (simp add: fit_all_def thirds_init)
next
  case (snoc doc texts)
  have "fit_all t (texts @ [doc]) = fit (fit_all t texts) doc"
    by (simp add: fit_all_def)
  with snoc thirds_fit [of "fit_all t texts" doc] show ?case by auto
qed

lemma split_ws_no_space: "w \<in> set (split_ws s) \<Longrightarrow> \<forall>c \<in> set w. \<not> isspace c"
proof (induction s rule: split_ws.induct)
  case (1 s)
  show ?case
  proof (cases "dropWhile isspace s")
    case Nil
    with 1(2) show ?thesis by (subst (asm) split_ws.simps) simp
  next
    case (Cons c cs)
    with 1(2) consider "w = c # takeWhile (\<lambda>x. \<not> isspace x) cs"
      | "w \<in> set (split_ws (dropWhile (\<lambda>x. \<not> isspace x) cs))"
      by (subst (asm) split_ws.simps) auto
    then show ?thesis
    proof cases
      case 1
      with dropWhile_isspace_head [OF Cons] show ?thesis
        by (auto dest: set_takeWhileD)
    next
      case 2
      with "1.IH" [OF Cons] show ?thesis by simp
    qed
  qed
qed

lemma token_no_space: "w \<in> set (tokenize (clean_text text)) \<Longrightarrow> CHR '' '' \<notin> set w"
  using split_ws_no_space [of w "clean_text text"] isspace_space
  by (auto simp: tokenize_def)

lemma thirds_fit_all_no_space:
  "w \<in> thirds (counts (fit_all t texts)) \<Longrightarrow> CHR '' '' \<notin> set w"
proof -
  assume "w \<in> thirds (counts (fit_all t texts))"
  with thirds_fit_all [of t texts]
  consider "w = UNK_TOKEN" | "w = END_TOKEN"
    | doc where "w \<in> set (tokenize (clean_text doc))"
    by auto
  then show ?thesis
  proof cases
    case 1 then show ?thesis by (simp add: UNK_TOKEN_def)
  next
    case 2 then show ?thesis by (simp add: END_TOKEN_def)
  next
    case 3 then show ?thesis by (rule token_no_space)
  qed
qed

lemma split_sp_not_Nil: "split_sp s \<noteq> []"
  by (induction s) (auto split: list.splits)

lemma split_sp_single: "CHR '' '' \<notin> set w \<Longrightarrow> split_sp w = [w]"
  by (induction w) (auto split: list.splits)

lemma split_sp_word:
  "CHR '' '' \<notin> set w \<Longrightarrow> split_sp (w @ CHR '' '' # rest) = w # split_sp rest"
  using split_sp_not_Nil by (induction w) (auto split: list.splits)

lemma split_sp_join:
  "ws \<noteq> [] \<Longrightarrow> \<forall>w \<in> set ws. CHR '' '' \<notin> set w \<Longrightarrow> split_sp (join_sp ws) = ws"
proof (induction ws rule: join_sp.induct)
  case 1
  then show ?case by simp
next
  case (2 w)
  then show ?case by (simp add: split_sp_single)
next
  case (3 w v ws)
  then show ?case by (simp add: split_sp_word)
qed

lemma words_of_join:
  "\<forall>w \<in> set ws. CHR '' '' \<notin> set w \<Longrightarrow>
   length (filter (\<lambda>w. w \<noteq> []) (split_sp (join_sp ws))) \<le> length ws"
proof (cases "ws = []")
  case True
  then show ?thesis by simp
next
  case False
  assume "\<forall>w \<in> set ws. CHR '' '' \<notin> set w"
  with False have "split_sp (join_sp ws) = ws" by (rule split_sp_join)
  then show ?thesis by simp
qed

text \<open>
  C8. For every model, seed, entropy source and \<open>max_length\<close>, \<open>generate\<close> returns
  (it raises nothing and its loop ends), it emits at most \<open>max_length\<close> words (none when
  \<open>max_length\<close> is not positive) and takes at most that many draws from the entropy source.
  With \<open>max_length = 0\<close> it returns the empty string and leaves the source untouched. For a
  model built by calls of \<open>fit\<close>, the returned string split on single spaces has at most
  \<open>max_length\<close> non-empty words.
\<close>

theorem length_cap:
  "(\<exists>ws e'. generate_words m max_length seed e = Inr (ws, e')
        \<and> generate m max_length seed e = Inr (join_sp ws, e')
        \<and> int (length ws) \<le> max 0 max_length
        \<and> int (consumed e') \<le> int (consumed e) + max 0 max_length)
   \<and> generate m 0 seed e = Inr ([], e)
   \<and> (\<exists>s e'. generate (fit_all t texts) max_length seed e = Inr (s, e')
        \<and> int (length (filter (\<lambda>w. w \<noteq> []) (split_sp s))) \<le> max 0 max_length)"
proof -
  from generate_words_result [of m max_length seed e]
  obtain ws e' where g: "generate_words m max_length seed e = Inr (ws, e')"
    and l: "int (length ws) \<le> max 0 max_length"
    and c: "int (consumed e') \<le> int (consumed e) + max 0 max_length"
    by blast
  have first: "\<exists>ws e'. generate_words m max_length seed e = Inr (ws, e')
        \<and> generate m max_length seed e = Inr (join_sp ws, e')
        \<and> int (length ws) \<le> max 0 max_length
        \<and> int (consumed e') \<le> int (consumed e) + max 0 max_length"
    using g l c generate_of_words [OF g] by blast
  have "generate_words m 0 seed e = Inr ([], e)"
    by (cases seed) (auto simp: generate_words_def generate_loop.simps)
  then have zero: "generate m 0 seed e = Inr ([], e)"
    by (simp add: generate_def)
  from generate_words_result [of "fit_all t texts" max_length seed e]
  obtain ws1 e1 where g1: "generate_words (fit_all t texts) max_length seed e = Inr (ws1, e1)"
    and l1: "int (length ws1) \<le> max 0 max_length"
    and s1: "set ws1 \<subseteq> thirds (counts (fit_all t texts)) - {START_TOKEN, END_TOKEN}"
    by blast
  from s1 have "\<forall>w \<in> set ws1. CHR '' '' \<notin> set w"
    using thirds_fit_all_no_space [of _ t texts] by blast
  then have "length (filter (\<lambda>w. w \<noteq> []) (split_sp (join_sp ws1))) \<le> length ws1"
    by (rule words_of_join)
  with l1 have "int (length (filter (\<lambda>w. w \<noteq> []) (split_sp (join_sp ws1)))) \<le> max 0 max_length"
    by linarith
  with generate_of_words [OF g1] have third:
    "\<exists>s e'. generate (fit_all t texts) max_length seed e = Inr (s, e')
        \<and> int (length (filter (\<lambda>w. w \<noteq> []) (split_sp s))) \<le> max 0 max_length"
    by blast
  show ?thesis using first zero third by blast
qed

subsection \<open>The start token\<close>

lemma START_not_UNK_END: "START_TOKEN \<noteq> UNK_TOKEN" "START_TOKEN \<noteq> END_TOKEN"
  by (simp_all add: START_TOKEN_def UNK_TOKEN_def END_TOKEN_def)

text \<open>
  C10, as stated, fails: the sentinels are plain strings, so a training text may hold the
  word \<open><start>\<close>. After training on \<open>a <start> b\<close> the start token is the third
  component of the stored trigram \<open>(<start>, a, <start>)\<close>, it carries all the mass of the
  context \<open>(<start>, a)\<close>, and the sampler returns it there.
\<close>

theorem start_token_as_third_component:
  "START_TOKEN \<in> thirds (counts (fit_all 0 [''a <start> b'']))
   \<and> get_next_word_probabilities (fit_all 0 [''a <start> b'']) START_TOKEN ''a''
       = [(START_TOKEN, 1)]
   \<and> sample_next_word (fit_all 0 [''a <start> b'']) START_TOKEN ''a''
         \<lparr>source = (\<lambda>i. 0), consumed = 0\<rparr>
       = Inr (START_TOKEN, \<lparr>source = (\<lambda>i. 0), consumed = Suc 0\<rparr>)"
proof -
  have h1: "START_TOKEN \<in> thirds (counts (fit_all 0 [''a <start> b'']))"
    by code_simp
  have h2: "get_next_word_probabilities (fit_all 0 [''a <start> b'']) START_TOKEN ''a''
              = [(START_TOKEN, 1)]"
    by code_simp
  have h3: "sample_next_word (fit_all 0 [''a <start> b'']) START_TOKEN ''a''
              \<lparr>source = (\<lambda>i. 0), consumed = 0\<rparr>
            = Inr (START_TOKEN, \<lparr>source = (\<lambda>i. 0), consumed = Suc 0\<rparr>)"
  proof -
    have a: "accumulate [1] = [1]" by code_simp
    have b: "fadd 1 0 = 1" by code_simp
    have c: "fmul 0 1 = 0" by code_simp
    show ?thesis
      by (simp add: sample_next_word_def h2 choices_def a b c bisect_def random_draw_def)
  qed
  show ?thesis using h1 h2 h3 by simp
qed

text \<open>
  C10, amended. In every model state reached from a fresh model by calls of \<open>fit\<close> on
  texts none of whose tokens is the start token, the start token is not the third component
  of any stored trigram, it does not occur in any next-word distribution, and the sampler
  does not return it. In every model state whatsoever, \<open>generate\<close> returns and the start
  token is not among the words it emits.
\<close>

theorem start_never_sampled:
  "((\<forall>doc \<in> set texts. START_TOKEN \<notin> set (tokenize (clean_text doc))) \<longrightarrow>
      START_TOKEN \<notin> thirds (counts (fit_all t texts))
      \<and> START_TOKEN \<notin> fst ` set (get_next_word_probabilities (fit_all t texts) w1 w2)
      \<and> (\<exists>w e'. sample_next_word (fit_all t texts) w1 w2 e = Inr (w, e') \<and> w \<noteq> START_TOKEN))
   \<and> (\<exists>ws e'. generate_words m max_length seed e = Inr (ws, e')
         \<and> generate m max_length seed e = Inr (join_sp ws, e')
         \<and> START_TOKEN \<notin> set ws)"
proof -
  have trained_part:
    "START_TOKEN \<notin> thirds (counts (fit_all t texts))
      \<and> START_TOKEN \<notin> fst ` set (get_next_word_probabilities (fit_all t texts) w1 w2)
      \<and> (\<exists>w e'. sample_next_word (fit_all t texts) w1 w2 e = Inr (w, e') \<and> w \<noteq> START_TOKEN)"
    if clean: "\<forall>doc \<in> set texts. START_TOKEN \<notin> set (tokenize (clean_text doc))"
  proof -
    let ?m = "fit_all t texts"
    have inv: "START_TOKEN \<notin> thirds (counts ?m)"
      using thirds_fit_all [of t texts] clean START_not_UNK_END by auto
    have items: "START_TOKEN \<notin> fst ` set (context_items ?m w1 w2)"
      using inv context_items_thirds [of ?m w1 w2] by blast
    have "fst ` set (get_next_word_probabilities ?m w1 w2) \<subseteq> fst ` set (context_items ?m w1 w2)"
    proof (cases "total_count (counts ?m) w1 w2 = 0")
      case True
      then show ?thesis by (simp add: probs_eq)
    next
      case False
      then have "map fst (get_next_word_probabilities ?m w1 w2) = map fst (context_items ?m w1 w2)"
        by (intro probs_keys_weights(1)) simp
      then have "set (map fst (get_next_word_probabilities ?m w1 w2))
                   = set (map fst (context_items ?m w1 w2))"
        by simp
      then show ?thesis by (simp only: set_map)
    qed
    with items have probs: "START_TOKEN \<notin> fst ` set (get_next_word_probabilities ?m w1 w2)"
      by blast
    have "\<exists>w e'. sample_next_word ?m w1 w2 e = Inr (w, e') \<and> w \<noteq> START_TOKEN"
      using sample_cases [of ?m w1 w2 e] items START_not_UNK_END by metis
    with inv probs show ?thesis by blast
  qed
  from generate_words_result [of m max_length seed e]
  obtain ws e' where g: "generate_words m max_length seed e = Inr (ws, e')"
    and s: "set ws \<subseteq> thirds (counts m) - {START_TOKEN, END_TOKEN}"
    by blast
  then have "START_TOKEN \<notin> set ws" by blast
  with g generate_of_words [OF g] have any_part:
    "\<exists>ws e'. generate_words m max_length seed e = Inr (ws, e')
         \<and> generate m max_length seed e = Inr (join_sp ws, e')
         \<and> START_TOKEN \<notin> set ws"
    by blast
  show ?thesis using trained_part any_part by blast
qed

theorem start_never_sampled_witness:
  "START_TOKEN \<notin> set (tokenize (clean_text ''a b a''))
   \<and> START_TOKEN \<notin> set (tokenize (clean_text ''b c''))
   \<and> START_TOKEN \<notin> thirds (counts (fit_all 1 [''a b a'', ''b c'']))
   \<and> START_TOKEN
       \<notin> fst ` set (get_next_word_probabilities (fit_all 1 [''a b a'', ''b c''])
                      START_TOKEN START_TOKEN)"
proof -
  have h1: "START_TOKEN \<notin> set (tokenize (clean_text ''a b a''))"
    by code_simp
  have h2: "START_TOKEN \<notin> set (tokenize (clean_text ''b c''))"
    by code_simp
  show ?thesis
    using h1 h2
      start_never_sampled [of "[''a b a'', ''b c'']" 1 START_TOKEN START_TOKEN
        "\<lparr>source = (\<lambda>i. 0), consumed = 0\<rparr>" "init 1" 0 None]
    by simp
qed

end
